theory Spec2Isabelle
  imports Main
begin

section \<open>Tokens (lexer.c, lines 11-32)\<close>

datatype TokenType =
    TOKEN_INT
  | TOKEN_VOID
  | TOKEN_RETURN
  | TOKEN_IDENTIFIER
  | TOKEN_CONSTANT
  | TOKEN_OPEN_PAREN
  | TOKEN_CLOSE_PAREN
  | TOKEN_OPEN_BRACE
  | TOKEN_CLOSE_BRACE
  | TOKEN_SEMICOLON
  | TOKEN_EOF
  | TOKEN_ERROR

text \<open>
  A token is the struct of the source: its type and its lexeme, a heap copy of the matched
  text. The lexeme of the end-of-file token is the null pointer, here \<open>None\<close>.
\<close>

record Token =
  type :: TokenType
  lexeme :: "string option"

section \<open>The buffer and its reads\<close>

text \<open>
  The buffer of \<open>main\<close> is \<open>malloc(fsize + 1)\<close>: the bytes of the file followed by one
  terminating zero byte. It is modelled by the list \<open>buf\<close> of the file's bytes; a position is
  an offset from the start of the buffer. Offsets \<open>0 .. length buf\<close> lie inside the
  allocation and offset \<open>length buf\<close> holds the terminator. A read at a larger offset is
  outside the allocation: C gives it no meaning, and the model returns \<open>OutOfBounds\<close>.
  \<open>NoReturnValue\<close> is the use of the value of a call that ended without a \<open>return\<close>
  statement, which C gives no meaning either.

  The counters \<open>len\<close> and \<open>error_count\<close> are C \<open>int\<close>s that count bytes and
  tokens of the buffer. They are modelled by \<open>int\<close>, which is exact as long as they stay
  below \<open>INT_MAX\<close>: for every buffer shorter than \<open>2 ^ 30\<close> bytes.
\<close>

datatype error = OutOfBounds | NoReturnValue

definition NUL :: char where
  "NUL = CHR 0x00"

definition rd :: "string \<Rightarrow> nat \<Rightarrow> error + char" where
  "rd buf i =
     (if i < length buf then Inr (buf ! i)
      else if i = length buf then Inr NUL
      else Inl OutOfBounds)"

section \<open>Character classes of \<open>ctype.h\<close> in the C locale\<close>

text \<open>
  The program never calls \<open>setlocale\<close>, so the classification functions of the C library
  are those of the "C" locale. Their argument is the byte cast to \<open>unsigned char\<close>.
\<close>

definition isspace :: "char \<Rightarrow> bool" where
  "isspace c = (let n = (of_char c :: nat) in n = 32 \<or> (9 \<le> n \<and> n \<le> 13))"

definition isdigit :: "char \<Rightarrow> bool" where
  "isdigit c = (let n = (of_char c :: nat) in 48 \<le> n \<and> n \<le> 57)"

definition isalpha :: "char \<Rightarrow> bool" where
  "isalpha c = (let n = (of_char c :: nat) in (65 \<le> n \<and> n \<le> 90) \<or> (97 \<le> n \<and> n \<le> 122))"

definition isalnum :: "char \<Rightarrow> bool" where
  "isalnum c = (isalpha c \<or> isdigit c)"

section \<open>Skipping whitespace (lexer.c, lines 79-84)\<close>

function skip_whitespace :: "string \<Rightarrow> nat \<Rightarrow> error + nat" where
  "skip_whitespace buf input =
     (case rd buf input of
        Inl e \<Rightarrow> Inl e
      | Inr c \<Rightarrow>
          if c \<noteq> NUL \<and> isspace c then skip_whitespace buf (input + 1)
          else Inr input)"
  by pat_completeness auto
termination
  by (relation "measure (\<lambda>(buf, input). Suc (length buf) - input)")
     (auto simp: rd_def split: if_splits)

declare skip_whitespace.simps [simp del]

section \<open>Skipping comments (lexer.c, lines 91-116)\<close>

text \<open>The inner loop of a \<open>//\<close> comment (lines 98-99): up to, not over, the newline.\<close>

function skip_line_comment :: "string \<Rightarrow> nat \<Rightarrow> error + nat" where
  "skip_line_comment buf input =
     (case rd buf input of
        Inl e \<Rightarrow> Inl e
      | Inr c \<Rightarrow>
          if c \<noteq> NUL \<and> c \<noteq> CHR 0x0A then skip_line_comment buf (input + 1)
          else Inr input)"
  by pat_completeness auto
termination
  by (relation "measure (\<lambda>(buf, input). Suc (length buf) - input)")
     (auto simp: rd_def split: if_splits)

declare skip_line_comment.simps [simp del]

text \<open>
  The inner loop of a \<open>/* */\<close> comment (lines 105-106). \<open>input[1]\<close> is read only when
  \<open>input[0]\<close> is a star, as the short-circuit conjunction of the source does.
\<close>

function skip_block_body :: "string \<Rightarrow> nat \<Rightarrow> error + nat" where
  "skip_block_body buf input =
     (case rd buf input of
        Inl e \<Rightarrow> Inl e
      | Inr c \<Rightarrow>
          if c = NUL then Inr input
          else if c = CHR ''*'' then
            (case rd buf (input + 1) of
               Inl e \<Rightarrow> Inl e
             | Inr d \<Rightarrow>
                 if d = CHR ''/'' then Inr input
                 else skip_block_body buf (input + 1))
          else skip_block_body buf (input + 1))"
  by pat_completeness auto
termination
  by (relation "measure (\<lambda>(buf, input). Suc (length buf) - input)")
     (auto simp: rd_def NUL_def split: if_splits)

declare skip_block_body.simps [simp del]

text \<open>
  The function itself: its outer loop, lines 93-114. \<open>input[1]\<close> is read only when
  \<open>input[0]\<close> is a slash. No function of the file calls it.
\<close>

function skip_comments :: "string \<Rightarrow> nat \<Rightarrow> error + nat" where
  "skip_comments buf input =
     (case rd buf input of
        Inl e \<Rightarrow> Inl e
      | Inr c \<Rightarrow>
          if c = NUL then Inr input
          else if c = CHR ''/'' then
            (case rd buf (input + 1) of
               Inl e \<Rightarrow> Inl e
             | Inr d \<Rightarrow>
                 if d = CHR ''/'' then
                   (case skip_line_comment buf input of
                      Inl e \<Rightarrow> Inl e
                    | Inr input' \<Rightarrow> skip_comments buf input')
                 else if d = CHR ''*'' then
                   (case skip_block_body buf (input + 2) of
                      Inl e \<Rightarrow> Inl e
                    | Inr input' \<Rightarrow>
                        (case rd buf input' of
                           Inl e \<Rightarrow> Inl e
                         | Inr x \<Rightarrow>
                             if x \<noteq> NUL then skip_comments buf (input' + 2)
                             else skip_comments buf input'))
                 else Inr input)
          else Inr input)"
  by pat_completeness auto

section \<open>Copying a lexeme: \<open>strndup\<close>\<close>

text \<open>
  \<open>strndup(s, n)\<close> copies at most \<open>n\<close> bytes of the string at \<open>s\<close> and stops at its
  terminator.
\<close>

fun strndup :: "string \<Rightarrow> nat \<Rightarrow> nat \<Rightarrow> error + string" where
  "strndup buf s 0 = Inr []"
| "strndup buf s (Suc n) =
     (case rd buf s of
        Inl e \<Rightarrow> Inl e
      | Inr c \<Rightarrow>
          if c = NUL then Inr []
          else (case strndup buf (s + 1) n of
                  Inl e \<Rightarrow> Inl e
                | Inr cs \<Rightarrow> Inr (c # cs)))"

section \<open>Keywords (lexer.c, lines 123-129)\<close>

text \<open>The argument is the lexeme just copied by \<open>strndup\<close>; it holds no zero byte.\<close>

definition check_keyword :: "string \<Rightarrow> TokenType" where
  "check_keyword str =
     (if str = ''int'' then TOKEN_INT
      else if str = ''void'' then TOKEN_VOID
      else if str = ''return'' then TOKEN_RETURN
      else TOKEN_IDENTIFIER)"

section \<open>The next token (lexer.c, lines 136-227)\<close>

text \<open>The \<open>switch\<close> of lines 152-160; \<open>TOKEN_ERROR\<close> is the initial value it leaves.\<close>

definition simple_type :: "char \<Rightarrow> TokenType" where
  "simple_type c =
     (if c = CHR ''('' then TOKEN_OPEN_PAREN
      else if c = CHR '')'' then TOKEN_CLOSE_PAREN
      else if c = CHR ''{'' then TOKEN_OPEN_BRACE
      else if c = CHR ''}'' then TOKEN_CLOSE_BRACE
      else if c = CHR '';'' then TOKEN_SEMICOLON
      else TOKEN_ERROR)"

text \<open>The loop of lines 177-181: \<open>p\<close> and \<open>len\<close> move together.\<close>

function ident_loop :: "string \<Rightarrow> nat \<Rightarrow> int \<Rightarrow> error + (nat \<times> int)" where
  "ident_loop buf p len =
     (case rd buf p of
        Inl e \<Rightarrow> Inl e
      | Inr c \<Rightarrow>
          if isalnum c \<or> c = CHR ''_'' then
            ident_loop buf (p + 1) (len + 1)
          else Inr (p, len))"
  by pat_completeness auto
termination
  by (relation "measure (\<lambda>(buf, p, len). Suc (length buf) - p)")
     (auto simp: rd_def NUL_def isalnum_def isalpha_def isdigit_def split: if_splits)

declare ident_loop.simps [simp del]

text \<open>The loop of lines 201-205.\<close>

function digit_loop :: "string \<Rightarrow> nat \<Rightarrow> int \<Rightarrow> error + (nat \<times> int)" where
  "digit_loop buf p len =
     (case rd buf p of
        Inl e \<Rightarrow> Inl e
      | Inr c \<Rightarrow>
          if isdigit c then
            digit_loop buf (p + 1) (len + 1)
          else Inr (p, len))"
  by pat_completeness auto
termination
  by (relation "measure (\<lambda>(buf, p, len). Suc (length buf) - p)")
     (auto simp: rd_def NUL_def isdigit_def split: if_splits)

declare digit_loop.simps [simp del]

text \<open>
  The loop of lines 216-221. It walks \<open>input\<close> from the start of the token and goes on
  counting in \<open>len\<close>, whatever \<open>len\<close> holds when the loop is reached.
\<close>

function error_loop :: "string \<Rightarrow> nat \<Rightarrow> int \<Rightarrow> error + (nat \<times> int)" where
  "error_loop buf input len =
     (case rd buf input of
        Inl e \<Rightarrow> Inl e
      | Inr c \<Rightarrow>
          if c \<noteq> NUL \<and> \<not> isspace c \<and> c \<noteq> CHR ''('' \<and> c \<noteq> CHR '')'' \<and>
             c \<noteq> CHR ''{'' \<and> c \<noteq> CHR ''}'' \<and> c \<noteq> CHR '';'' then
            error_loop buf (input + 1) (len + 1)
          else Inr (input, len))"
  by pat_completeness auto
termination
  by (relation "measure (\<lambda>(buf, input, len). Suc (length buf) - input)")
     (auto simp: rd_def split: if_splits)

declare error_loop.simps [simp del]

text \<open>
  Lines 171-190. The result \<open>None\<close> is control leaving the block without a \<open>return\<close>;
  lines 192-193 then reset \<open>p\<close> and \<open>len\<close>, so nothing of the block is carried on.
\<close>

definition scan_identifier :: "string \<Rightarrow> nat \<Rightarrow> error + (Token \<times> nat) option" where
  "scan_identifier buf input =
     (case rd buf input of
        Inl e \<Rightarrow> Inl e
      | Inr c \<Rightarrow>
          if isalpha c \<or> c = CHR ''_'' then
            (case ident_loop buf input 0 of
               Inl e \<Rightarrow> Inl e
             | Inr (p, len) \<Rightarrow>
                 (case rd buf p of
                    Inl e \<Rightarrow> Inl e
                  | Inr d \<Rightarrow>
                      if \<not> isalnum d \<and> d \<noteq> CHR ''_'' then
                        (case strndup buf input (nat len) of
                           Inl e \<Rightarrow> Inl e
                         | Inr str \<Rightarrow>
                             Inr (Some (\<lparr>type = check_keyword str, lexeme = Some str\<rparr>,
                                        input + nat len)))
                      else Inr None))
          else Inr None)"

text \<open>
  Lines 192-214. The result \<open>Inr len\<close> is control leaving the block without a
  \<open>return\<close>, with the value \<open>len\<close> has at that point: \<open>0\<close> when the first character is
  no digit, the length of the digit run when the run is followed by a letter, a digit or an
  underscore.
\<close>

definition scan_constant :: "string \<Rightarrow> nat \<Rightarrow> error + ((Token \<times> nat) + int)" where
  "scan_constant buf input =
     (case rd buf input of
        Inl e \<Rightarrow> Inl e
      | Inr c \<Rightarrow>
          if isdigit c then
            (case digit_loop buf (input + 1) 1 of
               Inl e \<Rightarrow> Inl e
             | Inr (p, len) \<Rightarrow>
                 (case rd buf p of
                    Inl e \<Rightarrow> Inl e
                  | Inr d \<Rightarrow>
                      if \<not> isalnum d \<and> d \<noteq> CHR ''_'' then
                        (case strndup buf input (nat len) of
                           Inl e \<Rightarrow> Inl e
                         | Inr str \<Rightarrow>
                             Inr (Inl (\<lparr>type = TOKEN_CONSTANT, lexeme = Some str\<rparr>,
                                       input + nat len)))
                      else Inr (Inr len)))
          else Inr (Inr 0))"

text \<open>
  Lines 216-226, entered with the \<open>len\<close> the constant block left. \<open>*current_pos\<close> is
  still the start of the token: the loop moves the local \<open>input\<close> only.
\<close>

definition scan_error :: "string \<Rightarrow> nat \<Rightarrow> int \<Rightarrow> error + (Token \<times> nat)" where
  "scan_error buf current_pos len0 =
     (case error_loop buf current_pos len0 of
        Inl e \<Rightarrow> Inl e
      | Inr (input, len) \<Rightarrow>
          (let n = (if len > 0 then len else 1) in
           case strndup buf current_pos (nat n) of
             Inl e \<Rightarrow> Inl e
           | Inr str \<Rightarrow> Inr (\<lparr>type = TOKEN_ERROR, lexeme = Some str\<rparr>, current_pos + nat n)))"

text \<open>
  The function itself. It takes the buffer and the position \<open>*current_pos\<close> and returns the
  token with the position it stores back. Only \<open>skip_whitespace\<close> is called at line 139;
  \<open>skip_comments\<close> is called nowhere in the file.
\<close>

definition get_next_token :: "string \<Rightarrow> nat \<Rightarrow> error + (Token \<times> nat)" where
  "get_next_token buf current_pos =
     (case skip_whitespace buf current_pos of
        Inl e \<Rightarrow> Inl e
      | Inr input \<Rightarrow>
          (case rd buf input of
             Inl e \<Rightarrow> Inl e
           | Inr c \<Rightarrow>
               if c = NUL then Inr (\<lparr>type = TOKEN_EOF, lexeme = None\<rparr>, input)
               else if simple_type c \<noteq> TOKEN_ERROR then
                 (case strndup buf input 1 of
                    Inl e \<Rightarrow> Inl e
                  | Inr str \<Rightarrow> Inr (\<lparr>type = simple_type c, lexeme = Some str\<rparr>, input + 1))
               else
                 (case scan_identifier buf input of
                    Inl e \<Rightarrow> Inl e
                  | Inr (Some r) \<Rightarrow> Inr r
                  | Inr None \<Rightarrow>
                      (case scan_constant buf input of
                         Inl e \<Rightarrow> Inl e
                       | Inr (Inl r) \<Rightarrow> Inr r
                       | Inr (Inr len) \<Rightarrow> scan_error buf input len))))"

section \<open>The token loop of \<open>main\<close> (lexer.c, lines 288-316)\<close>

text \<open>
  The \<open>do ... while\<close> loop: it takes the next token, counts it in \<open>error_count\<close> when its
  type is \<open>TOKEN_ERROR\<close> (lines 308-311, with one line on the error stream for that token),
  and goes on until the token is \<open>TOKEN_EOF\<close>. The model returns the tokens in the order the
  loop sees them, and the final \<open>error_count\<close>. What the loop prints does not enter its
  control flow and is left out (lines 297-301 print through \<open>token_type_to_string\<close> and
  compare with \<open>TOKEN_KEYWORD_INT\<close>, \<open>TOKEN_KEYWORD_VOID\<close> and \<open>TOKEN_KEYWORD_RETURN\<close>,
  names that the file declares nowhere).
\<close>

definition count_error :: "Token \<Rightarrow> int \<Rightarrow> int" where
  "count_error current_token error_count =
     (if type current_token = TOKEN_ERROR then error_count + 1 else error_count)"

function token_loop :: "string \<Rightarrow> nat \<Rightarrow> int \<Rightarrow> error + (Token list \<times> int)" where
  "token_loop buf current_pos error_count =
     (case get_next_token buf current_pos of
        Inl e \<Rightarrow> Inl e
      | Inr (current_token, current_pos') \<Rightarrow>
          if type current_token \<noteq> TOKEN_EOF then
            (case token_loop buf current_pos' (count_error current_token error_count) of
               Inl e \<Rightarrow> Inl e
             | Inr (tokens, n) \<Rightarrow> Inr (current_token # tokens, n))
          else Inr ([current_token], count_error current_token error_count))"
  by pat_completeness auto

text \<open>
  Lines 288-290: the loop starts at the first byte with no error counted. The source has
  no function of its own for this; \<open>tokenize_all\<close> is the name the specification gives to
  the loop.
\<close>

definition tokenize_all :: "string \<Rightarrow> error + (Token list \<times> int)" where
  "tokenize_all source_code = token_loop source_code 0 0"

section \<open>Reading the file (lexer.c, lines 237-253)\<close>

text \<open>
  The file system is a parameter: \<open>file\<close> is \<open>None\<close> when \<open>fopen\<close> fails and the bytes
  of the file otherwise; \<open>malloc_ok\<close> says whether \<open>malloc\<close> gives memory. The two failure
  paths return the null pointer, \<open>Inr None\<close>. The path that fills the buffer ends at the
  closing brace of the function, line 253, with no \<open>return\<close> statement: the caller gets no
  value.
\<close>

definition read_file :: "string option \<Rightarrow> bool \<Rightarrow> error + string option" where
  "read_file file malloc_ok =
     (case file of
        None \<Rightarrow> Inr None
      | Some bytes \<Rightarrow>
          if \<not> malloc_ok then Inr None
          else Inl NoReturnValue)"

section \<open>The program (lexer.c, lines 261-327)\<close>

text \<open>
  \<open>strtok(s, delim)\<close>, first call on a string: the first token of \<open>s\<close>, or the null
  pointer when \<open>s\<close> holds delimiters only.
\<close>

definition strtok :: "string \<Rightarrow> string \<Rightarrow> string option" where
  "strtok s delim =
     (case dropWhile (\<lambda>c. c \<in> set delim) s of
        [] \<Rightarrow> None
      | c # cs \<Rightarrow> Some (takeWhile (\<lambda>c. c \<notin> set delim) (c # cs)))"

text \<open>
  The loop of lines 269-272: its body is empty, so \<open>token\<close> never changes. The result
  \<open>None\<close> is a loop that never ends.
\<close>

partial_function (option) token_while :: "string option \<Rightarrow> unit option" where
  "token_while token = (if token \<noteq> None then token_while token else Some ())"

text \<open>
  The loop of lines 265-274 over the standard input; \<open>lines\<close> are the strings that the
  successive calls of \<open>fgets\<close> store in \<open>input_buffer\<close>, and \<open>fgets\<close> returns the null
  pointer when they are used up.
\<close>

fun stdin_loop :: "string list \<Rightarrow> unit option" where
  "stdin_loop [] = Some ()"
| "stdin_loop (input_buffer # lines) =
     (case token_while (strtok input_buffer [CHR '' '', CHR 0x09, CHR 0x0A]) of
        None \<Rightarrow> None
      | Some u \<Rightarrow> stdin_loop lines)"

text \<open>
  \<open>main\<close>: the result is \<open>None\<close> when the program never ends, \<open>Some (Inr status)\<close> when
  it returns the exit status \<open>status\<close>, and \<open>Some (Inl e)\<close> when it runs into \<open>e\<close>.
\<close>

definition main :: "string list \<Rightarrow> nat \<Rightarrow> string option \<Rightarrow> bool \<Rightarrow> (error + int) option" where
  "main lines argc file malloc_ok =
     (case stdin_loop lines of
        None \<Rightarrow> None
      | Some u \<Rightarrow>
          Some (if argc < 2 then Inr 1
                else (case read_file file malloc_ok of
                        Inl e \<Rightarrow> Inl e
                      | Inr None \<Rightarrow> Inr 1
                      | Inr (Some source_code) \<Rightarrow>
                          (case tokenize_all source_code of
                             Inl e \<Rightarrow> Inl e
                           | Inr (tokens, error_count) \<Rightarrow>
                               if error_count > 0 then Inr 1 else Inr 0))))"

section \<open>Reads and loops inside the buffer\<close>

lemma rd_in_bounds: "rd buf i = Inr c \<Longrightarrow> i \<le> length buf"
  by (auto simp: rd_def split: if_splits)

lemma rd_not_NUL: "rd buf i = Inr c \<Longrightarrow> c \<noteq> NUL \<Longrightarrow> i < length buf"
  by (auto simp: rd_def split: if_splits)

lemma rd_total: "i \<le> length buf \<Longrightarrow> \<exists>c. rd buf i = Inr c"
  by (auto simp: rd_def)

lemma NUL_class: "\<not> isspace NUL" "\<not> isdigit NUL" "\<not> isalpha NUL" "\<not> isalnum NUL"
  by (simp_all add: NUL_def isspace_def isdigit_def isalpha_def isalnum_def)

lemma skip_whitespace_bounds:
  "skip_whitespace buf i = Inr j \<Longrightarrow> i \<le> j \<and> j \<le> length buf"
proof (induction buf i rule: skip_whitespace.induct)
  case (1 buf input)
  from "1.prems" show ?case
    apply (subst (asm) skip_whitespace.simps)
    apply (auto split: sum.splits if_splits dest: rd_in_bounds "1.IH")
    done
qed

lemma skip_whitespace_total:
  "i \<le> length buf \<Longrightarrow> \<exists>j. skip_whitespace buf i = Inr j"
proof (induction buf i rule: skip_whitespace.induct)
  case (1 buf input)
  from rd_total [OF "1.prems"] obtain c where c: "rd buf input = Inr c" by blast
  show ?case
  proof (cases "c \<noteq> NUL \<and> isspace c")
    case True
    then have "input < length buf" using c rd_not_NUL by blast
    then have "input + 1 \<le> length buf" by simp
    from "1.IH" [OF c True this] c True show ?thesis
      by (simp add: skip_whitespace.simps [of buf input])
  next
    case False
    with c show ?thesis by (auto simp add: skip_whitespace.simps [of buf input])
  qed
qed

lemma skip_whitespace_fixed:
  "rd buf i = Inr c \<Longrightarrow> c = NUL \<or> \<not> isspace c \<Longrightarrow> skip_whitespace buf i = Inr i"
  by (auto simp add: skip_whitespace.simps [of buf i])

lemma skip_line_comment_result:
  "skip_line_comment buf i = Inr j \<Longrightarrow>
     i \<le> j \<and> j \<le> length buf \<and> (\<exists>c. rd buf j = Inr c \<and> (c = NUL \<or> c = CHR 0x0A))"
proof (induction buf i rule: skip_line_comment.induct)
  case (1 buf input)
  from "1.prems" show ?case
    apply (subst (asm) skip_line_comment.simps)
    apply (auto split: sum.splits if_splits dest: rd_in_bounds "1.IH")
    done
qed

lemma skip_block_body_result:
  "skip_block_body buf i = Inr j \<Longrightarrow> i \<le> j \<and> j \<le> length buf"
proof (induction buf i rule: skip_block_body.induct)
  case (1 buf input)
  from "1.prems" show ?case
    apply (subst (asm) skip_block_body.simps)
    apply (auto split: sum.splits if_splits dest: rd_in_bounds "1.IH")
    done
qed

text \<open>
  Every turn of the outer loop of \<open>skip_comments\<close> moves \<open>input\<close> forward: a comment is
  at least two bytes long.
\<close>

termination skip_comments
proof (relation "measure (\<lambda>(buf, input). Suc (length buf) - input)", goal_cases)
  case 1
  show ?case by simp
next
  case (2 buf input c d input')
  from skip_line_comment_result [OF 2(6)] obtain x where
    x: "input \<le> input'" "rd buf input' = Inr x" "x = NUL \<or> x = CHR 0x0A" by blast
  with 2 have "input' \<noteq> input" by (auto simp: NUL_def)
  with x rd_not_NUL [OF 2(1,2)] show ?case by simp
next
  case (3 buf input c d input' x)
  with skip_block_body_result [of buf "input + 2" input'] rd_not_NUL [of buf input c]
  show ?case by auto
next
  case (4 buf input c d input' x)
  with skip_block_body_result [of buf "input + 2" input'] rd_not_NUL [of buf input c]
  show ?case by auto
qed

declare skip_comments.simps [simp del]

lemma ident_loop_result:
  "ident_loop buf p len = Inr (q, l) \<Longrightarrow>
     p \<le> q \<and> q \<le> length buf \<and> l = len + int (q - p) \<and>
     (\<exists>d. rd buf q = Inr d \<and> \<not> isalnum d \<and> d \<noteq> CHR ''_'')"
proof (induction buf p len rule: ident_loop.induct)
  case (1 buf p len)
  from "1.prems" show ?case
    apply (subst (asm) ident_loop.simps)
    apply (auto split: sum.splits if_splits dest: rd_in_bounds "1.IH")
    done
qed

lemma ident_loop_total:
  "p \<le> length buf \<Longrightarrow> \<exists>q l. ident_loop buf p len = Inr (q, l)"
proof (induction buf p len rule: ident_loop.induct)
  case (1 buf p len)
  from rd_total [OF "1.prems"] obtain c where c: "rd buf p = Inr c" by blast
  show ?case
  proof (cases "isalnum c \<or> c = CHR ''_''")
    case True
    then have "c \<noteq> NUL" using NUL_class by (auto simp: NUL_def)
    with c have "p + 1 \<le> length buf" using rd_not_NUL by fastforce
    from "1.IH" [OF c True this] c True show ?thesis
      by (simp add: ident_loop.simps [of buf p])
  next
    case False
    with c show ?thesis by (simp add: ident_loop.simps [of buf p])
  qed
qed

lemma digit_loop_result:
  "digit_loop buf p len = Inr (q, l) \<Longrightarrow>
     p \<le> q \<and> q \<le> length buf \<and> l = len + int (q - p) \<and>
     (\<exists>d. rd buf q = Inr d \<and> \<not> isdigit d)"
proof (induction buf p len rule: digit_loop.induct)
  case (1 buf p len)
  from "1.prems" show ?case
    apply (subst (asm) digit_loop.simps)
    apply (auto split: sum.splits if_splits dest: rd_in_bounds "1.IH")
    done
qed

lemma digit_loop_total:
  "p \<le> length buf \<Longrightarrow> \<exists>q l. digit_loop buf p len = Inr (q, l)"
proof (induction buf p len rule: digit_loop.induct)
  case (1 buf p len)
  from rd_total [OF "1.prems"] obtain c where c: "rd buf p = Inr c" by blast
  show ?case
  proof (cases "isdigit c")
    case True
    then have "c \<noteq> NUL" using NUL_class by auto
    with c have "p + 1 \<le> length buf" using rd_not_NUL by fastforce
    from "1.IH" [OF c True this] c True show ?thesis
      by (simp add: digit_loop.simps [of buf p])
  next
    case False
    with c show ?thesis by (simp add: digit_loop.simps [of buf p])
  qed
qed

lemma error_loop_result:
  "error_loop buf p len = Inr (q, l) \<Longrightarrow>
     p \<le> q \<and> q \<le> length buf \<and> l = len + int (q - p)"
proof (induction buf p len rule: error_loop.induct)
  case (1 buf p len)
  from "1.prems" show ?case
    apply (subst (asm) error_loop.simps)
    apply (auto split: sum.splits if_splits dest: rd_in_bounds "1.IH")
    done
qed

lemma error_loop_total:
  "p \<le> length buf \<Longrightarrow> \<exists>q l. error_loop buf p len = Inr (q, l)"
proof (induction buf p len rule: error_loop.induct)
  case (1 buf p len)
  from rd_total [OF "1.prems"] obtain c where c: "rd buf p = Inr c" by blast
  let ?go = "c \<noteq> NUL \<and> \<not> isspace c \<and> c \<noteq> CHR ''('' \<and> c \<noteq> CHR '')'' \<and>
             c \<noteq> CHR ''{'' \<and> c \<noteq> CHR ''}'' \<and> c \<noteq> CHR '';''"
  show ?case
  proof (cases ?go)
    case True
    with c have "p + 1 \<le> length buf" using rd_not_NUL by fastforce
    from "1.IH" [OF c True this] c True show ?thesis
      by (simp add: error_loop.simps [of buf p])
  next
    case False
    with c show ?thesis by (auto simp add: error_loop.simps [of buf p])
  qed
qed

lemma strndup_nonempty:
  "strndup buf s n = Inr str \<Longrightarrow> 0 < n \<Longrightarrow> rd buf s = Inr c \<Longrightarrow> c \<noteq> NUL \<Longrightarrow> str \<noteq> []"
  by (cases n) (auto split: sum.splits)

lemma strndup_total:
  "s \<le> length buf \<Longrightarrow> \<exists>str. strndup buf s n = Inr str"
proof (induction n arbitrary: s)
  case 0
  show ?case by simp
next
  case (Suc n)
  from rd_total [OF Suc.prems] obtain c where c: "rd buf s = Inr c" by blast
  show ?case
  proof (cases "c = NUL")
    case True
    with c show ?thesis by simp
  next
    case False
    with c have "s + 1 \<le> length buf" using rd_not_NUL by fastforce
    from Suc.IH [OF this] c False show ?thesis by auto
  qed
qed

section \<open>What one call of \<open>get_next_token\<close> returns\<close>

lemma simple_type_cases:
  "simple_type c \<in> {TOKEN_OPEN_PAREN, TOKEN_CLOSE_PAREN, TOKEN_OPEN_BRACE, TOKEN_CLOSE_BRACE,
     TOKEN_SEMICOLON, TOKEN_ERROR}"
  by (simp add: simple_type_def)

lemma check_keyword_cases:
  "check_keyword str \<in> {TOKEN_INT, TOKEN_VOID, TOKEN_RETURN, TOKEN_IDENTIFIER}"
  by (simp add: check_keyword_def)

lemma scan_identifier_result:
  assumes "scan_identifier buf input = Inr (Some (tok, pos'))"
  shows "input < pos' \<and> pos' \<le> length buf \<and>
     type tok \<in> {TOKEN_INT, TOKEN_VOID, TOKEN_RETURN, TOKEN_IDENTIFIER}"
proof -
  from assms obtain c p len str where
    c: "rd buf input = Inr c" "isalpha c \<or> c = CHR ''_''" and
    loop: "ident_loop buf input 0 = Inr (p, len)" and
    tok: "tok = \<lparr>type = check_keyword str, lexeme = Some str\<rparr>" "pos' = input + nat len"
    by (auto simp: scan_identifier_def split: sum.splits if_splits prod.splits)
  from ident_loop_result [OF loop] obtain d where
    p: "input \<le> p" "p \<le> length buf" "len = int (p - input)" and
    d: "rd buf p = Inr d" "\<not> isalnum d" "d \<noteq> CHR ''_''"
    by auto
  from c d have "p \<noteq> input" by (auto simp: isalnum_def)
  with p tok check_keyword_cases [of str] show ?thesis by auto
qed

lemma scan_identifier_total:
  assumes "input \<le> length buf"
  shows "\<exists>r. scan_identifier buf input = Inr r"
proof -
  from rd_total [OF assms] obtain c where c: "rd buf input = Inr c" by blast
  from ident_loop_total [OF assms] obtain p len where
    loop: "ident_loop buf input 0 = Inr (p, len)" by blast
  from ident_loop_result [OF loop] obtain d where d: "rd buf p = Inr d" by blast
  from strndup_total [OF assms] obtain str where
    "strndup buf input (nat len) = Inr str" by blast
  with c loop d show ?thesis by (simp add: scan_identifier_def)
qed

lemma scan_constant_result:
  assumes "scan_constant buf input = Inr (Inl (tok, pos'))"
  shows "input < pos' \<and> pos' \<le> length buf \<and> type tok = TOKEN_CONSTANT"
proof -
  from assms obtain p len str where
    loop: "digit_loop buf (input + 1) 1 = Inr (p, len)" and
    tok: "tok = \<lparr>type = TOKEN_CONSTANT, lexeme = Some str\<rparr>" "pos' = input + nat len"
    by (auto simp: scan_constant_def split: sum.splits if_splits prod.splits)
  from digit_loop_result [OF loop] have
    "input + 1 \<le> p" "p \<le> length buf" "len = 1 + int (p - (input + 1))"
    by auto
  with tok show ?thesis by auto
qed

lemma scan_constant_stale:
  assumes "scan_constant buf input = Inr (Inr len)"
  shows "0 \<le> len"
proof -
  from assms have "len = 0 \<or> (\<exists>p. digit_loop buf (input + 1) 1 = Inr (p, len))"
    by (auto simp: scan_constant_def split: sum.splits if_splits prod.splits)
  then show ?thesis by (auto dest: digit_loop_result)
qed

lemma scan_constant_total:
  assumes "input \<le> length buf"
  shows "\<exists>r. scan_constant buf input = Inr r"
proof -
  from rd_total [OF assms] obtain c where c: "rd buf input = Inr c" by blast
  show ?thesis
  proof (cases "isdigit c")
    case True
    then have "c \<noteq> NUL" using NUL_class by auto
    with c have "input + 1 \<le> length buf" using rd_not_NUL by fastforce
    from digit_loop_total [OF this] obtain p len where
      loop: "digit_loop buf (input + 1) 1 = Inr (p, len)" by blast
    from digit_loop_result [OF loop] obtain d where d: "rd buf p = Inr d" by blast
    from strndup_total [OF assms] obtain str where
      "strndup buf input (nat len) = Inr str" by blast
    with c True loop d show ?thesis by (simp add: scan_constant_def)
  next
    case False
    with c show ?thesis by (simp add: scan_constant_def)
  qed
qed

lemma scan_error_result:
  assumes "scan_error buf input len0 = Inr (tok, pos')" and "0 \<le> len0"
    and c: "rd buf input = Inr c" "c \<noteq> NUL"
  shows "input < pos' \<and> type tok = TOKEN_ERROR \<and> (\<exists>str. lexeme tok = Some str \<and> str \<noteq> [])"
proof -
  from assms(1) obtain q len str where
    loop: "error_loop buf input len0 = Inr (q, len)" and
    str: "strndup buf input (nat (if len > 0 then len else 1)) = Inr str" and
    tok: "tok = \<lparr>type = TOKEN_ERROR, lexeme = Some str\<rparr>"
         "pos' = input + nat (if len > 0 then len else 1)"
    by (auto simp: scan_error_def Let_def split: sum.splits prod.splits)
  have "0 < nat (if len > 0 then len else 1)" by simp
  from strndup_nonempty [OF str this c] tok show ?thesis by auto
qed

lemma scan_error_total:
  assumes "input \<le> length buf"
  shows "\<exists>r. scan_error buf input len0 = Inr r"
proof -
  from error_loop_total [OF assms] obtain q len where
    loop: "error_loop buf input len0 = Inr (q, len)" by blast
  from strndup_total [OF assms] obtain str where
    "strndup buf input (nat (if len > 0 then len else 1)) = Inr str" by blast
  with loop show ?thesis by (simp add: scan_error_def Let_def)
qed

text \<open>The five ways in which a call returns a token.\<close>

lemma get_next_token_cases:
  assumes "get_next_token buf pos = Inr (tok, pos')"
  obtains
    (eof) input where "skip_whitespace buf pos = Inr input" "rd buf input = Inr NUL"
      "tok = \<lparr>type = TOKEN_EOF, lexeme = None\<rparr>" "pos' = input"
  | (simple) input c str where "skip_whitespace buf pos = Inr input" "rd buf input = Inr c"
      "c \<noteq> NUL" "simple_type c \<noteq> TOKEN_ERROR" "strndup buf input 1 = Inr str"
      "tok = \<lparr>type = simple_type c, lexeme = Some str\<rparr>" "pos' = input + 1"
  | (ident) input c where "skip_whitespace buf pos = Inr input" "rd buf input = Inr c"
      "c \<noteq> NUL" "scan_identifier buf input = Inr (Some (tok, pos'))"
  | (const) input c where "skip_whitespace buf pos = Inr input" "rd buf input = Inr c"
      "c \<noteq> NUL" "scan_constant buf input = Inr (Inl (tok, pos'))"
  | (err) input c len where "skip_whitespace buf pos = Inr input" "rd buf input = Inr c"
      "c \<noteq> NUL" "scan_constant buf input = Inr (Inr len)"
      "scan_error buf input len = Inr (tok, pos')"
  using assms unfolding get_next_token_def
  by (auto split: sum.splits if_splits option.splits)

lemma get_next_token_moves:
  assumes "get_next_token buf pos = Inr (tok, pos')"
  shows "pos \<le> length buf \<and> pos \<le> pos' \<and>
         (pos' = pos \<longrightarrow> rd buf pos = Inr NUL \<and> type tok = TOKEN_EOF) \<and>
         (type tok \<noteq> TOKEN_EOF \<longrightarrow> pos < pos')"
  using assms
proof (cases rule: get_next_token_cases)
  case (eof input)
  with skip_whitespace_bounds [OF eof(1)] show ?thesis by auto
next
  case (simple input c str)
  with skip_whitespace_bounds [OF simple(1)] show ?thesis by auto
next
  case (ident input c)
  with skip_whitespace_bounds [OF ident(1)] scan_identifier_result [OF ident(4)]
  show ?thesis by auto
next
  case (const input c)
  with skip_whitespace_bounds [OF const(1)] scan_constant_result [OF const(4)]
  show ?thesis by auto
next
  case (err input c len)
  with skip_whitespace_bounds [OF err(1)]
    scan_error_result [OF err(5) scan_constant_stale [OF err(4)] err(2,3)]
  show ?thesis by auto
qed

lemma get_next_token_total:
  assumes "pos \<le> length buf"
  shows "\<exists>tok pos'. get_next_token buf pos = Inr (tok, pos')"
proof -
  from skip_whitespace_total [OF assms] obtain input where
    ws: "skip_whitespace buf pos = Inr input" by blast
  from skip_whitespace_bounds [OF ws] have input: "input \<le> length buf" by simp
  from rd_total [OF input] obtain c where c: "rd buf input = Inr c" by blast
  from strndup_total [OF input] obtain str where str: "strndup buf input 1 = Inr str" by blast
  from scan_identifier_total [OF input] obtain ri where
    ri: "scan_identifier buf input = Inr ri" by blast
  from scan_constant_total [OF input] obtain rc where
    rc: "scan_constant buf input = Inr rc" by blast
  have "\<exists>r. get_next_token buf pos = Inr r"
  proof (cases rc)
    case (Inl a)
    with ws c str ri rc show ?thesis
      by (auto simp: get_next_token_def split: option.splits)
  next
    case (Inr len)
    from scan_error_total [OF input] obtain re where
      "scan_error buf input len = Inr re" by blast
    with Inr ws c str ri rc show ?thesis
      by (auto simp: get_next_token_def split: option.splits)
  qed
  then show ?thesis by auto
qed

text \<open>
  The recursion of \<open>token_loop\<close> is well-founded: a call that goes on (its token is not
  \<open>TOKEN_EOF\<close>) started inside the buffer and moved the position forward, so the distance
  to the end of the allocation has gone down. A call at a position outside the buffer
  returns \<open>OutOfBounds\<close> at its first read, and the model stops there; the source has no
  such check and reads on.
\<close>

termination token_loop
proof (relation "measure (\<lambda>(buf, current_pos, error_count). Suc (length buf) - current_pos)",
    goal_cases)
  case 1
  show ?case by simp
next
  case (2 buf current_pos error_count r current_token current_pos')
  then have "get_next_token buf current_pos = Inr (current_token, current_pos')" by simp
  from get_next_token_moves [OF this] 2(3) show ?case by auto
qed

declare token_loop.simps [simp del]

text \<open>The count the loop returns is the count it starts with plus its error tokens.\<close>

lemma token_loop_count:
  "token_loop buf pos error_count = Inr (tokens, n) \<Longrightarrow>
     n = error_count + int (length (filter (\<lambda>t. type t = TOKEN_ERROR) tokens))"
proof (induction buf pos error_count arbitrary: tokens n rule: token_loop.induct)
  case (1 buf current_pos error_count)
  from "1.prems" show ?case
    apply (subst (asm) token_loop.simps)
    apply (auto simp: count_error_def split: sum.splits if_splits prod.splits dest!: "1.IH")
    done
qed

text \<open>
  A run of the loop that reaches the end-of-file token has made at most as many calls as
  there are positions from its start to the terminator.
\<close>

lemma token_loop_length:
  "token_loop buf pos error_count = Inr (tokens, n) \<Longrightarrow>
     length tokens \<le> Suc (length buf) - pos"
proof (induction buf pos error_count arbitrary: tokens n rule: token_loop.induct)
  case (1 buf current_pos error_count)
  from "1.prems" obtain tok pos' where
    r: "get_next_token buf current_pos = Inr (tok, pos')"
    by (subst (asm) token_loop.simps) (auto split: sum.splits)
  note m = get_next_token_moves [OF r]
  show ?case
  proof (cases "type tok = TOKEN_EOF")
    case True
    with r "1.prems" have "tokens = [tok]"
      by (subst (asm) token_loop.simps) auto
    with m show ?thesis by auto
  next
    case False
    with r "1.prems" obtain rest where
      rest: "token_loop buf pos' (count_error tok error_count) = Inr (rest, n)"
        "tokens = tok # rest"
      by (subst (asm) token_loop.simps) (auto split: sum.splits)
    from rest(1) obtain tok2 pos2 where "get_next_token buf pos' = Inr (tok2, pos2)"
      by (subst (asm) token_loop.simps) (auto split: sum.splits)
    from get_next_token_moves [OF this] have "pos' \<le> length buf" by simp
    moreover from "1.IH" [OF r refl False rest(1)]
    have "length rest \<le> Suc (length buf) - pos'" .
    ultimately show ?thesis using m False rest(2) by auto
  qed
qed

text \<open>The empty loop of lines 269-272 ends only when \<open>strtok\<close> found no token.\<close>

lemma token_while_returns:
  assumes "token_while token = Some u"
  shows "token = None"
proof (rule token_while.raw_induct [where P = "\<lambda>t y. t = None", OF _ assms])
  fix f :: "string option \<Rightarrow> unit option" and t y
  assume "\<And>x y. f x = Some y \<Longrightarrow> x = None"
    and "(if t \<noteq> None then f t else Some ()) = Some y"
  then show "t = None" by (auto split: if_splits)
qed

lemma token_while_spins: "token_while (Some t) = None"
  using token_while_returns [of "Some t"] by (cases "token_while (Some t)") auto

lemma token_while_None: "token_while None = Some ()"
  by (simp add: token_while.simps)

section \<open>The scenarios of the specification\<close>

text \<open>
  C5. For the input \<open>int main(void){return 2;}\<close> the token loop returns the eleven tokens
  Int, Identifier "main", OpenParen, Void, CloseParen, OpenBrace, Return, Constant "2",
  Semicolon, CloseBrace, EndOfInput, and counts no malformed token.
\<close>

theorem scenario_A_tokens:
  "tokenize_all ''int main(void){return 2;}'' =
     Inr ([\<lparr>type = TOKEN_INT, lexeme = Some ''int''\<rparr>,
           \<lparr>type = TOKEN_IDENTIFIER, lexeme = Some ''main''\<rparr>,
           \<lparr>type = TOKEN_OPEN_PAREN, lexeme = Some ''(''\<rparr>,
           \<lparr>type = TOKEN_VOID, lexeme = Some ''void''\<rparr>,
           \<lparr>type = TOKEN_CLOSE_PAREN, lexeme = Some '')''\<rparr>,
           \<lparr>type = TOKEN_OPEN_BRACE, lexeme = Some ''{''\<rparr>,
           \<lparr>type = TOKEN_RETURN, lexeme = Some ''return''\<rparr>,
           \<lparr>type = TOKEN_CONSTANT, lexeme = Some ''2''\<rparr>,
           \<lparr>type = TOKEN_SEMICOLON, lexeme = Some '';''\<rparr>,
           \<lparr>type = TOKEN_CLOSE_BRACE, lexeme = Some ''}''\<rparr>,
           \<lparr>type = TOKEN_EOF, lexeme = None\<rparr>],
          0)"
  by code_simp

text \<open>
  C3, as the specification states it: \<open>foo$bar\<close> would give Identifier "foo",
  Malformed "$", Identifier "bar", EndOfInput. The token loop does not return these tokens.
\<close>

theorem foo_dollar_bar_not_split:
  "fst (projr (tokenize_all ''foo$bar'')) \<noteq>
     [\<lparr>type = TOKEN_IDENTIFIER, lexeme = Some ''foo''\<rparr>,
      \<lparr>type = TOKEN_ERROR, lexeme = Some ''$''\<rparr>,
      \<lparr>type = TOKEN_IDENTIFIER, lexeme = Some ''bar''\<rparr>,
      \<lparr>type = TOKEN_EOF, lexeme = None\<rparr>]"
  by code_simp

text \<open>
  C3, amended: for the input \<open>foo$bar\<close> the token loop returns Identifier "foo",
  Malformed "$bar", EndOfInput and counts one malformed token. The malformed run that
  starts at \<open>$\<close> ends only at whitespace, at one of the five punctuators or at the end of
  the buffer, so it takes the letters \<open>bar\<close> with it.
\<close>

theorem foo_dollar_bar_tokens:
  "tokenize_all ''foo$bar'' =
     Inr ([\<lparr>type = TOKEN_IDENTIFIER, lexeme = Some ''foo''\<rparr>,
           \<lparr>type = TOKEN_ERROR, lexeme = Some ''$bar''\<rparr>,
           \<lparr>type = TOKEN_EOF, lexeme = None\<rparr>],
          1)"
  by code_simp

section \<open>Comments are not skipped\<close>

text \<open>
  Line 138 of the source announces "Skip whitespace and comments", and \<open>skip_comments\<close>
  would pass over both comments below; \<open>get_next_token\<close> calls \<open>skip_whitespace\<close> only.
\<close>

lemma skip_comments_scenarios:
  "skip_comments ''/* unterminated'' 0 = Inr 15"
  "skip_comments (''// comment'' @ [CHR 0x0A] @ ''int x;'') 0 = Inr 10"
  by code_simp+

text \<open>Whitespace is skipped: a buffer of whitespace only gives the end-of-file token alone.\<close>

lemma skip_whitespace_blank:
  "\<forall>c \<in> set buf. c \<noteq> NUL \<and> isspace c \<Longrightarrow> i \<le> length buf \<Longrightarrow>
     skip_whitespace buf i = Inr (length buf)"
proof (induction buf i rule: skip_whitespace.induct)
  case (1 buf input)
  show ?case
  proof (cases "input < length buf")
    case True
    then have rd: "rd buf input = Inr (buf ! input)" by (simp add: rd_def)
    from True "1.prems"(1) have sp: "buf ! input \<noteq> NUL \<and> isspace (buf ! input)" by simp
    from True have "input + 1 \<le> length buf" by simp
    from "1.IH" [OF rd sp "1.prems"(1) this] rd sp show ?thesis
      by (simp add: skip_whitespace.simps [of buf input])
  next
    case False
    with "1.prems"(2) have eq: "input = length buf" by simp
    then have "rd buf input = Inr NUL" by (simp add: rd_def)
    then have "skip_whitespace buf input = Inr input"
      by (rule skip_whitespace_fixed) simp
    with eq show ?thesis by simp
  qed
qed

lemma whitespace_only_buffer:
  assumes "\<forall>c \<in> set buf. c \<noteq> NUL \<and> isspace c"
  shows "tokenize_all buf = Inr ([\<lparr>type = TOKEN_EOF, lexeme = None\<rparr>], 0)"
proof -
  from skip_whitespace_blank [OF assms, of 0] have
    "skip_whitespace buf 0 = Inr (length buf)" by simp
  then have "get_next_token buf 0 = Inr (\<lparr>type = TOKEN_EOF, lexeme = None\<rparr>, length buf)"
    by (simp add: get_next_token_def rd_def)
  then show ?thesis
    by (simp add: tokenize_all_def token_loop.simps [of buf 0 0] count_error_def)
qed

text \<open>
  C1. A buffer of trivia only should give the single token EndOfInput and no malformed
  token. For the unterminated block comment \<open>/* unterminated\<close> the token loop returns
  Malformed "/*", Identifier "unterminated", EndOfInput, and counts one malformed token.
\<close>

theorem unterminated_comment_tokens:
  "tokenize_all ''/* unterminated'' =
     Inr ([\<lparr>type = TOKEN_ERROR, lexeme = Some ''/*''\<rparr>,
           \<lparr>type = TOKEN_IDENTIFIER, lexeme = Some ''unterminated''\<rparr>,
           \<lparr>type = TOKEN_EOF, lexeme = None\<rparr>],
          1)"
  by code_simp

text \<open>
  C4. A comment put in front of \<open>int x;\<close> should leave the tokens Int, Identifier "x",
  Semicolon, EndOfInput. For the input of a line comment, a newline and \<open>int x;\<close> the token
  loop returns Malformed "//" and Identifier "comment" in front of them, and counts one
  malformed token.
\<close>

theorem line_comment_tokens:
  "tokenize_all (''// comment'' @ [CHR 0x0A] @ ''int x;'') =
     Inr ([\<lparr>type = TOKEN_ERROR, lexeme = Some ''//''\<rparr>,
           \<lparr>type = TOKEN_IDENTIFIER, lexeme = Some ''comment''\<rparr>,
           \<lparr>type = TOKEN_INT, lexeme = Some ''int''\<rparr>,
           \<lparr>type = TOKEN_IDENTIFIER, lexeme = Some ''x''\<rparr>,
           \<lparr>type = TOKEN_SEMICOLON, lexeme = Some '';''\<rparr>,
           \<lparr>type = TOKEN_EOF, lexeme = None\<rparr>],
          1)"
  by code_simp

section \<open>Digits followed by letters\<close>

text \<open>
  When a digit run is followed by a letter, a digit or an underscore, control reaches the
  loop of lines 216-221 with \<open>len\<close> still holding the length of the digit run (line 193
  resets it before the digits are counted, nothing resets it after). The loop counts the
  whole run again from its start, so the token is as many bytes too long as the run has
  leading digits.

  C2. For the input \<open>12abc;\<close> the first token should be Malformed "12abc", followed by
  Semicolon and EndOfInput. The call returns Malformed "12abc;" (\<open>len\<close> is \<open>2 + 5\<close>; the
  copy stops at the terminator) and the position \<open>7\<close>, one past the terminator, where the
  loop of \<open>main\<close> makes its next call: no Semicolon and no EndOfInput follow.
\<close>

theorem digits_letters_token:
  "get_next_token ''12abc;'' 0 =
     Inr (\<lparr>type = TOKEN_ERROR, lexeme = Some ''12abc;''\<rparr>, 7) \<and>
   tokenize_all ''12abc;'' = Inl OutOfBounds"
  by code_simp

text \<open>
  C10. The position a call returns should be at most the position of the terminator. For
  the buffer \<open>7up\<close>, whose terminator is at position \<open>3\<close>, the call at position \<open>0\<close>
  returns the position \<open>4\<close>, and a read there is outside the buffer.
\<close>

theorem position_past_terminator:
  "get_next_token ''7up'' 0 = Inr (\<lparr>type = TOKEN_ERROR, lexeme = Some ''7up''\<rparr>, 4) \<and>
   rd ''7up'' 3 = Inr NUL \<and> rd ''7up'' 4 = Inl OutOfBounds"
  by code_simp

section \<open>Properties of every call\<close>

text \<open>
  One call from a position inside the buffer returns a token and a position that is not
  before the one it was given; the two positions are equal only when the given one is the
  end of the buffer, and the token is then EndOfInput. The buffer is shorter than
  \<open>2 ^ 30\<close> bytes, the range in which the counter \<open>len\<close> of the source cannot overflow.
  Nothing here says that the returned position is inside the buffer.
\<close>

lemma get_next_token_returns:
  assumes "pos \<le> length buf" and "length buf < 2 ^ 30"
  shows "\<exists>tok pos'. get_next_token buf pos = Inr (tok, pos') \<and> pos \<le> pos' \<and>
           (pos' = pos \<longrightarrow> rd buf pos = Inr NUL \<and> type tok = TOKEN_EOF)"
proof -
  from get_next_token_total [OF assms(1)] obtain tok pos' where
    r: "get_next_token buf pos = Inr (tok, pos')" by blast
  from get_next_token_moves [OF r] have
    "pos \<le> pos'" "pos' = pos \<longrightarrow> rd buf pos = Inr NUL \<and> type tok = TOKEN_EOF"
    by simp_all
  with r show ?thesis by blast
qed

text \<open>
  C6. Every call of \<open>get_next_token\<close> should return and move the position forward, and
  the loop of \<open>main\<close> should consequently end on every buffer. For the buffer \<open>1a\<close>,
  whose terminator is at position \<open>2\<close>, the first call returns Malformed "1a" and the
  position \<open>3\<close> (the stale \<open>len\<close> of the digit run again: \<open>1 + 2\<close>). The token is not
  EndOfInput, so the loop calls \<open>get_next_token\<close> at position \<open>3\<close>, where the first read is
  outside the buffer: the loop does not come to its end inside the buffer, and from there
  on the end of the buffer no longer bounds the positions.
\<close>

theorem loop_leaves_buffer:
  "get_next_token ''1a'' 0 = Inr (\<lparr>type = TOKEN_ERROR, lexeme = Some ''1a''\<rparr>, 3) \<and>
   get_next_token ''1a'' 3 = Inl OutOfBounds \<and>
   tokenize_all ''1a'' = Inl OutOfBounds"
  by code_simp

text \<open>
  C7. Every token of type \<open>TOKEN_ERROR\<close> that \<open>get_next_token\<close> returns has a lexeme of
  at least one character, for every buffer and every position.
\<close>

theorem Malformed_nonempty:
  assumes "get_next_token buf pos = Inr (tok, pos')" and "type tok = TOKEN_ERROR"
  shows "\<exists>str. lexeme tok = Some str \<and> 1 \<le> length str"
  using assms(1)
proof (cases rule: get_next_token_cases)
  case (eof input)
  with assms(2) show ?thesis by simp
next
  case (simple input c str)
  with assms(2) show ?thesis by simp
next
  case (ident input c)
  with assms(2) scan_identifier_result [OF ident(4)] show ?thesis by auto
next
  case (const input c)
  with assms(2) scan_constant_result [OF const(4)] show ?thesis by auto
next
  case (err input c len)
  from scan_error_result [OF err(5) scan_constant_stale [OF err(4)] err(2,3)]
  show ?thesis by (auto simp: Suc_le_eq)
qed

theorem Malformed_nonempty_witness:
  "get_next_token ''$;'' 0 = Inr (\<lparr>type = TOKEN_ERROR, lexeme = Some ''$''\<rparr>, 1) \<and>
   (\<exists>str. lexeme \<lparr>type = TOKEN_ERROR, lexeme = Some ''$''\<rparr> = Some str \<and> 1 \<le> length str)"
proof -
  have r: "get_next_token ''$;'' 0 = Inr (\<lparr>type = TOKEN_ERROR, lexeme = Some ''$''\<rparr>, 1)"
    by code_simp
  from Malformed_nonempty [OF r] r show ?thesis by simp
qed

text \<open>
  C8. EndOfInput is final: when a call returns a token of type \<open>TOKEN_EOF\<close> and a
  position, the call at that position returns the end-of-file token and the same position
  again, and so does every later call.
\<close>

theorem EOF_terminal:
  assumes "get_next_token buf pos = Inr (tok, pos')" and "type tok = TOKEN_EOF"
  shows "get_next_token buf pos' = Inr (\<lparr>type = TOKEN_EOF, lexeme = None\<rparr>, pos')"
  using assms(1)
proof (cases rule: get_next_token_cases)
  case (eof input)
  from eof(2) have "skip_whitespace buf input = Inr input"
    by (rule skip_whitespace_fixed) simp
  with eof show ?thesis by (simp add: get_next_token_def)
next
  case (simple input c str)
  with assms(2) simple_type_cases [of c] show ?thesis by auto
next
  case (ident input c)
  with assms(2) scan_identifier_result [OF ident(4)] show ?thesis by auto
next
  case (const input c)
  with assms(2) scan_constant_result [OF const(4)] show ?thesis by auto
next
  case (err input c len)
  from scan_error_result [OF err(5) scan_constant_stale [OF err(4)] err(2,3)] assms(2)
  show ?thesis by auto
qed

theorem EOF_terminal_witness:
  "get_next_token ''x  '' 1 = Inr (\<lparr>type = TOKEN_EOF, lexeme = None\<rparr>, 3) \<and>
   get_next_token ''x  '' 3 = Inr (\<lparr>type = TOKEN_EOF, lexeme = None\<rparr>, 3)"
proof -
  have r: "get_next_token ''x  '' 1 = Inr (\<lparr>type = TOKEN_EOF, lexeme = None\<rparr>, 3)"
    by code_simp
  from EOF_terminal [OF r] r show ?thesis by simp
qed

section \<open>The exit status\<close>

text \<open>
  Once the loop over the standard input is passed, the exit status is \<open>1\<close> for a missing
  argument and for a file that cannot be opened.
\<close>

lemma main_unreadable: "main [] 2 None malloc_ok = Some (Inr 1)"
  by (simp add: main_def read_file_def)

text \<open>A line of standard input that holds a token keeps the program in line 269 for ever.\<close>

lemma main_stdin_token: "main [''x''] argc file malloc_ok = None"
  by (simp add: main_def strtok_def token_while_spins)

text \<open>
  C9. The exit status should be \<open>0\<close> for a file that is read and holds no malformed
  token. For the readable file \<open>int x;\<close> and an empty standard input, \<open>read_file\<close> fills
  its buffer and ends without returning it: \<open>main\<close> has no buffer to scan, and no exit
  status follows from the contents of the file.
\<close>

theorem main_readable_file:
  "main [] 2 (Some ''int x;'') True = Some (Inl NoReturnValue)"
  by (simp add: main_def read_file_def)

end
